theory Spec2Isabelle
  imports Main "HOL-Library.Word"
begin

unbundle bit_operations_syntax

section \<open>Machine types and constants\<close>

text \<open>
  The firmware targets an ATtiny85 built with avr-gcc: \<open>int\<close> is 16 bits wide, so
  \<open>uint16_t\<close> arithmetic is not promoted to a wider type and wraps modulo \<open>2 ^ 16\<close>;
  \<open>uint8_t\<close> values are bytes.
\<close>

type_synonym u8 = "8 word"
type_synonym u16 = "16 word"

definition MAX_PERIOD :: u16 where
  "MAX_PERIOD = 32768"

definition MULTIPLIER :: u16 where
  "MULTIPLIER = 513"

definition C :: u16 where
  "C = 1"

definition MAX_MOVES :: nat where
  "MAX_MOVES = 100"

text \<open>\<open>enum STATE { IDLE, CPU, PLAYER, LOSE }\<close>\<close>

datatype STATE = IDLE | CPU | PLAYER | LOSE

text \<open>
  What C leaves undefined is a fault of the model: a store to or a load from
  \<open>moves\<close> outside its \<open>MAX_MOVES\<close> elements, and \<open>%\<close> by zero.
\<close>

datatype fault = Out_Of_Bounds | Division_By_Zero

section \<open>The leaf functions\<close>

text \<open>\<open>led_display\<close>: the \<open>switch\<close> over the one-hot move, with its \<open>default\<close>.\<close>

definition led_display :: "u8 \<Rightarrow> u8" where
  "led_display state =
     (if state = 0x01 then 0x03
      else if state = 0x02 then 0x04
      else if state = 0x04 then 0x06
      else if state = 0x08 then 0x01
      else 0x00)"

text \<open>
  \<open>rand_lcg\<close>: \<open>return (lcg_previous*a + c) % m;\<close> on \<open>uint16_t\<close>. Product and sum
  wrap modulo \<open>2 ^ 16\<close> before the remainder is taken.
\<close>

definition rand_lcg :: "u16 \<Rightarrow> u16 \<Rightarrow> u16 \<Rightarrow> u16 \<Rightarrow> u16 option" where
  "rand_lcg lcg_previous m a c =
     (if m = 0 then None else Some ((lcg_previous * a + c) mod m))"

text \<open>
  \<open>get_player_move\<close>, first half: the chain of bands that turns the raw ADC
  reading into a one-hot move (or 0). The C code joins the two comparisons of a band
  with the bitwise \<open>&\<close>; on the 0/1 results of comparisons that is conjunction.
\<close>

definition classify :: "u16 \<Rightarrow> u8" where
  "classify raw_move =
     (if raw_move \<ge> 500 \<and> raw_move \<le> 520 then 0x01
      else if raw_move \<ge> 600 \<and> raw_move \<le> 620 then 0x02
      else if raw_move \<ge> 660 \<and> raw_move \<le> 680 then 0x04
      else if raw_move \<ge> 710 \<and> raw_move \<le> 730 then 0x08
      else 0x00)"

text \<open>
  \<open>get_player_move\<close>, whole: the reading \<open>raw_move\<close> is what \<open>read_adc()\<close> returned,
  \<open>prev_move\<close> is the function's \<open>static\<close> variable. The result is the returned move
  together with the new value of the static variable.
\<close>

definition get_player_move :: "u16 \<Rightarrow> u8 \<Rightarrow> u8 \<times> u8" where
  "get_player_move raw_move prev_move =
     (let move = classify raw_move
      in if move = prev_move then (0, prev_move) else (move, move))"

section \<open>Display helpers\<close>

text \<open>
  The macros \<open>clear_display()\<close> (\<open>PORTB &= 0xF0\<close>) and \<open>set_display(state)\<close>
  (\<open>PORTB |= led_display(state)\<close>), as functions of the port register.
\<close>

definition clear_display :: "u8 \<Rightarrow> u8" where
  "clear_display portb = portb AND 0xF0"

definition set_display :: "u8 \<Rightarrow> u8 \<Rightarrow> u8" where
  "set_display state portb = portb OR led_display state"

text \<open>
  \<open>0x01 << k\<close> for a \<open>uint16_t\<close> amount \<open>k\<close>, stored in or passed as a \<open>uint8_t\<close>:
  the shift is done on 16 bits and the low byte is kept. Every amount the program
  shifts by is at most 7.
\<close>

definition shl1 :: "u16 \<Rightarrow> u8" where
  "shl1 k = ucast (push_bit (unat k) (1 :: u16))"

text \<open>
  \<open>blink_leds\<close>: the inner loop \<open>for (j = 0; j <= 3; j++)\<close> and the outer loop
  \<open>for (i = 0; i < 100; i++)\<close>, each as a recursion on its \<open>uint16_t\<close> counter.
  Delays are not modelled.
\<close>

function blink_inner :: "u16 \<Rightarrow> u8 \<Rightarrow> u8" where
  "blink_inner j portb =
     (if j \<le> 3 then blink_inner (j + 1) (clear_display (set_display (shl1 j) portb))
      else portb)"
  by pat_completeness auto
termination
proof (relation "measure (\<lambda>(j, portb). 4 - unat j)")
  show "wf (measure (\<lambda>(j :: u16, portb :: u8). 4 - unat j))" by simp
next
  fix j :: u16 and portb :: u8
  assume "j \<le> 3"
  then have "unat j \<le> 3" by (simp add: word_le_nat_alt)
  then have "unat (j + 1) = unat j + 1" by (simp add: unat_word_ariths)
  with \<open>unat j \<le> 3\<close>
  show "((j + 1, clear_display (set_display (shl1 j) portb)), (j, portb))
          \<in> measure (\<lambda>(j, portb). 4 - unat j)"
    by simp
qed

function blink_outer :: "u16 \<Rightarrow> u8 \<Rightarrow> u8" where
  "blink_outer i portb =
     (if i < 100 then blink_outer (i + 1) (blink_inner 0 portb) else portb)"
  by pat_completeness auto
termination
proof (relation "measure (\<lambda>(i, portb). 100 - unat i)")
  show "wf (measure (\<lambda>(i :: u16, portb :: u8). 100 - unat i))" by simp
next
  fix i :: u16 and portb :: u8
  assume "i < 100"
  then have "unat i < 100" by (simp add: word_less_nat_alt)
  then have "unat (i + 1) = unat i + 1" by (simp add: unat_word_ariths)
  with \<open>unat i < 100\<close>
  show "((i + 1, blink_inner 0 portb), (i, portb)) \<in> measure (\<lambda>(i, portb). 100 - unat i)"
    by simp
qed

definition blink_leds :: "u8 \<Rightarrow> u8" where
  "blink_leds portb = blink_outer 0 portb"

text \<open>
  The playback loop of the CPU turn,
  \<open>for (i = 0; i <= cpu_counter; i++) { PORTB |= led_display(moves[i]); PORTB &= 0xF0; }\<close>,
  from counter value \<open>i\<close> on. A load from \<open>moves\<close> outside its \<open>MAX_MOVES\<close> elements is a
  fault.
\<close>

function playback :: "u16 \<Rightarrow> u16 \<Rightarrow> (nat \<Rightarrow> u8) \<Rightarrow> u8 \<Rightarrow> fault + u8" where
  "playback i cpu_counter moves portb =
     (if i \<le> cpu_counter then
        if unat i < MAX_MOVES
        then playback (i + 1) cpu_counter moves
               (clear_display (portb OR led_display (moves (unat i))))
        else Inl Out_Of_Bounds
      else Inr portb)"
  by pat_completeness auto
termination
proof (relation "measure (\<lambda>(i, cpu_counter, moves, portb). MAX_MOVES - unat i)")
  show "wf (measure (\<lambda>(i :: u16, cpu_counter :: u16, moves :: nat \<Rightarrow> u8, portb :: u8).
              MAX_MOVES - unat i))"
    by simp
next
  fix i cpu_counter :: u16 and moves :: "nat \<Rightarrow> u8" and portb :: u8
  assume "unat i < MAX_MOVES"
  then have lt: "unat i < 100" by (simp add: MAX_MOVES_def)
  then have "unat (i + 1) = unat i + 1" by (simp add: unat_word_ariths)
  with lt
  show "((i + 1, cpu_counter, moves, clear_display (portb OR led_display (moves (unat i)))),
         (i, cpu_counter, moves, portb))
          \<in> measure (\<lambda>(i, cpu_counter, moves, portb). MAX_MOVES - unat i)"
    by (simp add: MAX_MOVES_def)
qed

section \<open>The game state and the main loop\<close>

text \<open>
  Everything that survives one iteration of \<open>while (1)\<close>: the global \<open>gamestate\<close>, the
  locals of \<open>main\<close> (\<open>moves\<close>, \<open>cpu_counter\<close>, \<open>player_counter\<close>, \<open>random\<close>), the
  \<open>static\<close> variables of \<open>get_player_move\<close> (\<open>prev_move\<close>) and of \<open>cascade_leds\<close>
  (\<open>i\<close> and \<open>up\<close>), the output register \<open>PORTB\<close> and the EEPROM word at address 46.
  The locals \<open>i\<close> and \<open>player_move\<close> of \<open>main\<close> are assigned before every use and are
  not part of the state; \<open>player_move\<close>, a \<open>uint16_t\<close> that only ever holds the
  \<open>uint8_t\<close> result of \<open>get_player_move\<close>, is kept as a byte. \<open>moves\<close> is the array as a function of the index; only
  indices below \<open>MAX_MOVES\<close> are ever read or written.
\<close>

record game =
  gamestate :: STATE
  moves :: "nat \<Rightarrow> u8"
  cpu_counter :: u16
  player_counter :: u16
  random :: u16
  prev_move :: u8
  cascade_i :: u16
  cascade_up :: u8
  PORTB :: u8
  eeprom46 :: u16

text \<open>\<open>cascade_leds\<close>: one step of the idle animation.\<close>

definition cascade_leds :: "game \<Rightarrow> game" where
  "cascade_leds s =
     (let portb = clear_display (set_display (shl1 (cascade_i s)) (PORTB s));
          up = (if cascade_i s = 3 then 0 else if cascade_i s = 0 then 1 else cascade_up s);
          i = (if up \<noteq> 0 then cascade_i s + 1 else cascade_i s - 1)
      in s\<lparr>PORTB := portb, cascade_up := up, cascade_i := i\<rparr>)"

text \<open>
  The state \<open>main\<close> enters its loop with: \<open>random\<close> is the word read from the EEPROM,
  \<open>moves\<close> is uninitialised (any contents \<open>junk\<close>), the counters are 0, \<open>gamestate\<close> is
  \<open>IDLE\<close>, \<open>PORTB\<close> has been cleared.
\<close>

definition init :: "u16 \<Rightarrow> (nat \<Rightarrow> u8) \<Rightarrow> game" where
  "init seed junk =
     \<lparr>gamestate = IDLE, moves = junk, cpu_counter = 0, player_counter = 0,
      random = seed, prev_move = 0, cascade_i = 0, cascade_up = 1,
      PORTB = 0, eeprom46 = seed\<rparr>"

text \<open>
  One iteration of \<open>while (1)\<close>. \<open>adc\<close> is the value \<open>read_adc()\<close> returns during this
  iteration; the branches \<open>PLAYER\<close> and \<open>IDLE\<close> call it exactly once, the other two
  never. The result is the state after the iteration, or the fault that stopped it.
\<close>

definition main_loop_body :: "u16 \<Rightarrow> game \<Rightarrow> fault + game" where
  "main_loop_body adc s =
     (if gamestate s = CPU then
        (case rand_lcg (random s) MAX_PERIOD MULTIPLIER C of
           None \<Rightarrow> Inl Division_By_Zero
         | Some r \<Rightarrow>
             if unat (cpu_counter s) < MAX_MOVES then
               (let mv = (moves s)(unat (cpu_counter s) := shl1 (drop_bit 13 r))
                in case playback 0 (cpu_counter s) mv (PORTB s) of
                     Inl e \<Rightarrow> Inl e
                   | Inr portb \<Rightarrow>
                       Inr (s\<lparr>random := r, eeprom46 := r, moves := mv, PORTB := portb,
                              cpu_counter := cpu_counter s + 1, gamestate := PLAYER\<rparr>))
             else Inl Out_Of_Bounds)
      else if gamestate s = PLAYER then
        (let (player_move, prev') = get_player_move adc (prev_move s);
             s1 = s\<lparr>prev_move := prev'\<rparr>
         in if player_move = 0 then Inr (s1\<lparr>PORTB := clear_display (PORTB s1)\<rparr>)
            else
              (let s2 = s1\<lparr>PORTB :=
                          clear_display (set_display player_move
                            (clear_display (set_display player_move (PORTB s1))))\<rparr>
               in if unat (player_counter s2) < MAX_MOVES then
                    if player_move = moves s2 (unat (player_counter s2)) then
                      if player_counter s2 = cpu_counter s2 - 1
                      then Inr (s2\<lparr>player_counter := 0, gamestate := CPU\<rparr>)
                      else Inr (s2\<lparr>player_counter := player_counter s2 + 1\<rparr>)
                    else Inr (s2\<lparr>player_counter := 0, cpu_counter := 0, gamestate := IDLE,
                                 PORTB := blink_leds (blink_leds (PORTB s2))\<rparr>)
                  else Inl Out_Of_Bounds))
      else if gamestate s = IDLE then
        (let s1 = s\<lparr>random := random s + 0x0001\<rparr>;
             s2 = s1\<lparr>eeprom46 := random s1\<rparr>;
             s3 = cascade_leds s2
         in if adc > 200
            then Inr (s3\<lparr>gamestate := CPU, PORTB := blink_leds (blink_leds (PORTB s3))\<rparr>)
            else Inr s3)
      else
        Inr (s\<lparr>PORTB := clear_display (set_display 0x08
                            (clear_display (set_display 0x01 (PORTB s))))\<rparr>))"

text \<open>The loop run over the readings of successive iterations, until a fault.\<close>

fun run :: "u16 list \<Rightarrow> game \<Rightarrow> fault + game" where
  "run [] s = Inr s"
| "run (adc # adcs) s =
     (case main_loop_body adc s of Inl e \<Rightarrow> Inl e | Inr s' \<Rightarrow> run adcs s')"

text \<open>The states the program can be in at the top of its loop.\<close>

inductive reachable :: "game \<Rightarrow> bool" where
  start: "reachable (init seed junk)"
| iteration: "reachable s \<Longrightarrow> main_loop_body adc s = Inr s' \<Longrightarrow> reachable s'"

text \<open>
  The generator iterated as \<open>main\<close> calls it: the \<open>n\<close>-th value of
  \<open>x = rand_lcg(x, MAX_PERIOD, MULTIPLIER, C)\<close> from the start value.
\<close>

fun lcg_iterate :: "nat \<Rightarrow> u16 \<Rightarrow> u16 option" where
  "lcg_iterate 0 x = Some x"
| "lcg_iterate (Suc n) x =
     (case rand_lcg x MAX_PERIOD MULTIPLIER C of
        None \<Rightarrow> None
      | Some y \<Rightarrow> lcg_iterate n y)"

text \<open>
  The step on natural numbers, \<open>x \<mapsto> (513 x + 1) mod 2 ^ 15\<close>, and the geometric sum
  \<open>geo n = 1 + 513 + \<dots> + 513 ^ (n - 1)\<close>. After \<open>n\<close> steps \<open>x\<close> has become
  \<open>x + geo n * (512 x + 1)\<close> modulo \<open>2 ^ 15\<close>; the second factor is odd, and \<open>geo n\<close>
  is divisible by exactly the powers of two that divide \<open>n\<close>. So \<open>x\<close> returns after
  \<open>n\<close> steps exactly when \<open>2 ^ 15\<close> divides \<open>n\<close>.
\<close>

definition lcg_nat :: "nat \<Rightarrow> nat" where
  "lcg_nat x = (x * 513 + 1) mod 32768"

fun geo :: "nat \<Rightarrow> nat" where
  "geo 0 = 0"
| "geo (Suc n) = 513 * geo n + 1"

text \<open>
  Successive calls of \<open>get_player_move\<close>, one per reading: the moves returned, in
  order, and the final value of the static \<open>prev_move\<close>.
\<close>

fun polls :: "u16 list \<Rightarrow> u8 \<Rightarrow> u8 list \<times> u8" where
  "polls [] prev = ([], prev)"
| "polls (raw # raws) prev =
     (let (move, prev') = get_player_move raw prev;
          (rest, prev'') = polls raws prev'
      in (move # rest, prev''))"

text \<open>
  A player who never errs, as a list of readings. \<open>press m\<close> is a reading in the middle
  of the band of move \<open>m\<close>, the reading 0 is a released keypad. \<open>cpu_move x k\<close> is
  the move the \<open>k\<close>-th CPU turn appends when \<open>random\<close> was \<open>x\<close> at the first one. The
  readings of round \<open>k\<close> are one for the CPU turn (which does not look at it) and, for
  each of the \<open>k + 1\<close> moves, a release and a press. The whole game starts with a reading
  above 200 that leaves \<open>IDLE\<close> after one tick, which has added 1 to the seed.
\<close>

definition press :: "u8 \<Rightarrow> u16" where
  "press m = (if m = 0x01 then 510 else if m = 0x02 then 610 else if m = 0x04 then 670 else 720)"

definition cpu_move :: "u16 \<Rightarrow> nat \<Rightarrow> u8" where
  "cpu_move x k = (case lcg_iterate (Suc k) x of None \<Rightarrow> 0 | Some r \<Rightarrow> shl1 (drop_bit 13 r))"

definition round_readings :: "u16 \<Rightarrow> nat \<Rightarrow> u16 list" where
  "round_readings x k = 0 # concat (map (\<lambda>j. [0, press (cpu_move x j)]) [0..<Suc k])"

definition perfect_game :: "u16 \<Rightarrow> nat \<Rightarrow> u16 list" where
  "perfect_game seed n = 201 # concat (map (round_readings (seed + 1)) [0..<n])"

text \<open>
  The state before the CPU turn of round \<open>n\<close> of such a game: \<open>n\<close> moves are stored,
  they are the generator's, and \<open>random\<close> is the \<open>n\<close>-th value from \<open>x\<close>.
\<close>

definition synced :: "u16 \<Rightarrow> nat \<Rightarrow> game \<Rightarrow> bool" where
  "synced x n s \<longleftrightarrow>
     gamestate s = CPU \<and> unat (cpu_counter s) = n \<and> player_counter s = 0 \<and>
     lcg_iterate n x = Some (random s) \<and> (\<forall>j<n. moves s j = cpu_move x j)"

text \<open>
  The invariant of the loop: the sequence fits the array, its entries are one-hot,
  the player's position is inside the sequence during the player's turn and 0
  otherwise, and \<open>gamestate\<close> is never \<open>LOSE\<close>.
\<close>

definition game_inv :: "game \<Rightarrow> bool" where
  "game_inv s \<longleftrightarrow>
     unat (cpu_counter s) \<le> MAX_MOVES \<and>
     (\<forall>i < unat (cpu_counter s). moves s i \<in> {0x01, 0x02, 0x04, 0x08}) \<and>
     (gamestate s = PLAYER \<longrightarrow> player_counter s < cpu_counter s) \<and>
     (gamestate s \<noteq> PLAYER \<longrightarrow> player_counter s = 0) \<and>
     gamestate s \<noteq> LOSE"

section \<open>What the display loops leave in the port register\<close>

text \<open>
  Every pattern of \<open>led_display\<close> lies in the low three bits, so clearing the display
  after showing a pattern leaves the high nibble of the register and nothing else.
\<close>

lemma led_display_low: "led_display m AND 0xF0 = 0"
  by (simp add: led_display_def)

lemma clear_set_display: "clear_display (set_display m portb) = clear_display portb"
  by (simp add: clear_display_def set_display_def bit.conj_disj_distrib2 led_display_low)

lemma clear_or_led: "clear_display (portb OR led_display m) = clear_display portb"
  by (simp add: clear_display_def bit.conj_disj_distrib2 led_display_low)

lemma clear_display_idem: "clear_display (clear_display portb) = clear_display portb"
  by (simp add: clear_display_def and.assoc)

lemma unat_succ_small: "unat (i :: u16) < 65535 \<Longrightarrow> unat (i + 1) = unat i + 1"
  by (simp add: unat_word_ariths)

declare blink_inner.simps [simp del] blink_outer.simps [simp del] playback.simps [simp del]

lemma blink_inner_clear: "j \<le> 3 \<Longrightarrow> blink_inner j portb = clear_display portb"
proof (induction j portb rule: blink_inner.induct)
  case (1 j portb)
  let ?p = "clear_display (set_display (shl1 j) portb)"
  from 1(2) have step: "blink_inner j portb = blink_inner (j + 1) ?p"
    by (subst blink_inner.simps) simp
  show ?case
  proof (cases "j + 1 \<le> 3")
    case True
    with 1 have "blink_inner (j + 1) ?p = clear_display ?p" by simp
    with step show ?thesis by (simp add: clear_set_display clear_display_idem)
  next
    case False
    then have "blink_inner (j + 1) ?p = ?p" by (subst blink_inner.simps) simp
    with step show ?thesis by (simp add: clear_set_display)
  qed
qed

lemma blink_outer_clear: "i < 100 \<Longrightarrow> blink_outer i portb = clear_display portb"
proof (induction i portb rule: blink_outer.induct)
  case (1 i portb)
  let ?p = "blink_inner 0 portb"
  have p: "?p = clear_display portb" by (simp add: blink_inner_clear)
  from 1(2) have step: "blink_outer i portb = blink_outer (i + 1) ?p"
    by (subst blink_outer.simps) simp
  show ?case
  proof (cases "i + 1 < 100")
    case True
    with 1 have "blink_outer (i + 1) ?p = clear_display ?p" by simp
    with step p show ?thesis by (simp add: clear_display_idem)
  next
    case False
    then have "blink_outer (i + 1) ?p = ?p" by (subst blink_outer.simps) simp
    with step p show ?thesis by simp
  qed
qed

lemma blink_leds_clear: "blink_leds portb = clear_display portb"
  by (simp add: blink_leds_def blink_outer_clear)

lemma playback_ok:
  "unat cc < MAX_MOVES \<Longrightarrow> i \<le> cc \<Longrightarrow> playback i cc mv portb = Inr (clear_display portb)"
proof (induction i cc mv portb rule: playback.induct)
  case (1 i cc mv portb)
  let ?p = "clear_display (portb OR led_display (mv (unat i)))"
  have p: "?p = clear_display portb" by (simp add: clear_or_led)
  from 1(2,3) have lt: "unat i < MAX_MOVES" by (simp add: word_le_nat_alt)
  with 1(3) have step: "playback i cc mv portb = playback (i + 1) cc mv ?p"
    by (subst playback.simps) simp
  show ?case
  proof (cases "i + 1 \<le> cc")
    case True
    with 1 lt have "playback (i + 1) cc mv ?p = Inr (clear_display ?p)" by simp
    with step p show ?thesis by (simp add: clear_display_idem)
  next
    case False
    then have "playback (i + 1) cc mv ?p = Inr ?p" by (subst playback.simps) simp
    with step p show ?thesis by simp
  qed
qed

section \<open>The display encoder\<close>

text \<open>
  C8. \<open>led_display\<close> is total on bytes: 0x01, 0x02, 0x04 and 0x08 give the patterns
  0x03, 0x04, 0x06 and 0x01 of the table, which are pairwise distinct, nonzero and
  below 8 (three bits); every other byte, 0x00 and the bytes with several bits set
  among them, gives 0.
\<close>

theorem led_display_total:
  "led_display 0x01 = 0x03 \<and> led_display 0x02 = 0x04 \<and>
   led_display 0x04 = 0x06 \<and> led_display 0x08 = 0x01 \<and>
   distinct [led_display 0x01, led_display 0x02, led_display 0x04, led_display 0x08] \<and>
   (\<forall>m \<in> {0x01, 0x02, 0x04, 0x08}. led_display m \<noteq> 0 \<and> led_display m < 8) \<and>
   (\<forall>x. x \<notin> {0x01, 0x02, 0x04, 0x08} \<longrightarrow> led_display x = 0)"
  by (simp add: led_display_def)

theorem led_display_total_witness:
  "led_display 0x02 \<noteq> 0 \<and> led_display 0x02 < 8 \<and>
   (0x00 :: u8) \<notin> {0x01, 0x02, 0x04, 0x08} \<and> led_display 0x00 = 0 \<and>
   (0x03 :: u8) \<notin> {0x01, 0x02, 0x04, 0x08} \<and> led_display 0x03 = 0 \<and>
   (0xFF :: u8) \<notin> {0x01, 0x02, 0x04, 0x08} \<and> led_display 0xFF = 0"
  using led_display_total by simp

section \<open>The generator step\<close>

text \<open>
  C3. For every 16-bit state \<open>s\<close>, \<open>rand_lcg(s, 32768, 513, 1)\<close> returns
  \<open>(s * 513 + 1) mod 32768\<close> computed over unbounded integers: the wrap-around of
  the product and the sum modulo \<open>2 ^ 16\<close> does not change the remainder modulo
  \<open>2 ^ 15\<close>. The call in \<open>main\<close> passes exactly these parameters.
\<close>

theorem rand_lcg_exact:
  "rand_lcg s 32768 513 1 = Some (word_of_nat ((unat s * 513 + 1) mod 32768)) \<and>
   rand_lcg s MAX_PERIOD MULTIPLIER C = rand_lcg s 32768 513 1 \<and>
   unat (the (rand_lcg s 32768 513 1)) = (unat s * 513 + 1) mod 32768 \<and>
   uint (the (rand_lcg s 32768 513 1)) = (uint s * 513 + 1) mod 32768"
proof -
  let ?r = "(s * 513 + 1) mod 32768 :: u16"
  have r: "rand_lcg s 32768 513 1 = Some ?r" by (simp add: rand_lcg_def)
  have "unat ?r = ((unat s * 513 + 1) mod 65536) mod 32768"
    by (simp add: unat_mod unat_word_ariths mod_Suc_eq)
  also have "\<dots> = (unat s * 513 + 1) mod 32768"
    by (rule mod_mod_cancel) simp
  finally have u: "unat ?r = (unat s * 513 + 1) mod 32768" .
  then have w: "?r = word_of_nat ((unat s * 513 + 1) mod 32768)"
    by (metis of_nat_unat ucast_id)
  from u have "int (unat ?r) = int ((unat s * 513 + 1) mod 32768)" by simp
  then have i: "uint ?r = (uint s * 513 + 1) mod 32768"
    by (simp add: zmod_int add.commute)
  from r w u i show ?thesis
    by (simp add: MAX_PERIOD_def MULTIPLIER_def C_def)
qed

section \<open>The period of the generator\<close>

lemma pow_geo: "513 ^ n = 512 * geo n + 1"
  by (induction n) simp_all

lemma geo_add: "geo (m + n) = geo m * 513 ^ n + geo n"
  by (induction n) (simp_all add: algebra_simps)

lemma geo_double: "geo (2 * n) = 2 * (geo n * (256 * geo n + 1))"
proof -
  have "geo (2 * n) = geo n * 513 ^ n + geo n" using geo_add [of n n] by (simp add: mult_2)
  also have "\<dots> = geo n * (512 * geo n + 1) + geo n" by (simp only: pow_geo)
  also have "\<dots> = 2 * (geo n * (256 * geo n + 1))" by (simp add: algebra_simps)
  finally show ?thesis .
qed

lemma geo_parity: "even (geo n) \<longleftrightarrow> even n"
  by (induction n) simp_all

lemma geo_dvd: "2 ^ k dvd geo n \<longleftrightarrow> 2 ^ k dvd n"
proof (induction k arbitrary: n)
  case 0
  show ?case by simp
next
  case (Suc k)
  show ?case
  proof (cases "even n")
    case False
    have two: "2 dvd (2 :: nat) ^ Suc k" by simp
    from False have "odd (geo n)" by (simp add: geo_parity)
    with two have "\<not> 2 ^ Suc k dvd geo n" using dvd_trans by blast
    moreover from False two have "\<not> 2 ^ Suc k dvd n" using dvd_trans by blast
    ultimately show ?thesis by simp
  next
    case True
    then obtain m where n: "n = 2 * m" by (auto elim: evenE)
    have cop: "coprime (2 ^ k) (256 * geo m + 1 :: nat)"
      by (rule coprime_power_left_iff [THEN iffD2]) simp
    have "2 ^ Suc k dvd geo n \<longleftrightarrow> 2 * 2 ^ k dvd 2 * (geo m * (256 * geo m + 1))"
      by (simp only: n geo_double power_Suc)
    also have "\<dots> \<longleftrightarrow> 2 ^ k dvd geo m * (256 * geo m + 1)"
      by (simp only: nat_mult_dvd_cancel_disj) simp
    also have "\<dots> \<longleftrightarrow> 2 ^ k dvd geo m"
      by (rule coprime_dvd_mult_left_iff [OF cop])
    also have "\<dots> \<longleftrightarrow> 2 ^ k dvd m" by (rule Suc.IH)
    also have "\<dots> \<longleftrightarrow> 2 ^ Suc k dvd n" by (simp add: n)
    finally show ?thesis .
  qed
qed

lemma lcg_nat_funpow: "(lcg_nat ^^ n) x mod 32768 = (x + geo n * (512 * x + 1)) mod 32768"
proof (induction n)
  case 0
  show ?case by simp
next
  case (Suc n)
  have "(lcg_nat ^^ Suc n) x mod 32768 = ((lcg_nat ^^ n) x * 513 + 1) mod 32768"
    by (simp add: lcg_nat_def)
  also have "\<dots> = ((lcg_nat ^^ n) x mod 32768 * 513 + 1) mod 32768"
    by (intro mod_add_cong mod_mult_cong refl) simp
  also have "\<dots> = ((x + geo n * (512 * x + 1)) mod 32768 * 513 + 1) mod 32768"
    by (simp only: Suc.IH)
  also have "\<dots> = ((x + geo n * (512 * x + 1)) * 513 + 1) mod 32768"
    by (intro mod_add_cong mod_mult_cong refl) simp
  also have "(x + geo n * (512 * x + 1)) * 513 + 1 = x + geo (Suc n) * (512 * x + 1)"
    by (simp add: algebra_simps)
  finally show ?case .
qed

lemma lcg_nat_return: "(lcg_nat ^^ n) x mod 32768 = x mod 32768 \<longleftrightarrow> 32768 dvd n"
proof -
  have cop: "coprime (2 ^ 15) (512 * x + 1 :: nat)"
    by (rule coprime_power_left_iff [THEN iffD2]) simp
  have "(lcg_nat ^^ n) x mod 32768 = x mod 32768 \<longleftrightarrow>
        (x + geo n * (512 * x + 1)) mod 32768 = x mod 32768"
    by (simp add: lcg_nat_funpow)
  also have "\<dots> \<longleftrightarrow> 2 ^ 15 dvd geo n * (512 * x + 1)"
    using mod_eq_dvd_iff_nat [of x "x + geo n * (512 * x + 1)" 32768] by simp
  also have "\<dots> \<longleftrightarrow> 2 ^ 15 dvd geo n"
    by (rule coprime_dvd_mult_left_iff [OF cop])
  also have "\<dots> \<longleftrightarrow> 2 ^ 15 dvd n" by (rule geo_dvd)
  finally show ?thesis by simp
qed


lemma lcg_nat_less: "lcg_nat x < 32768"
  by (simp add: lcg_nat_def)

lemma lcg_nat_funpow_less: "x < 32768 \<Longrightarrow> (lcg_nat ^^ n) x < 32768"
  by (induction n) (simp_all add: lcg_nat_less)

lemma lcg_nat_return_iff:
  assumes "x < 32768"
  shows "(lcg_nat ^^ n) x = x \<longleftrightarrow> 32768 dvd n"
  using lcg_nat_return [of n x] lcg_nat_funpow_less [OF assms, of n] assms by simp

lemma lcg_nat_distinct_le:
  assumes x: "x < 32768" and ij: "i \<le> j" "j < 32768"
    and eq: "(lcg_nat ^^ i) x = (lcg_nat ^^ j) x"
  shows "i = j"
proof -
  let ?y = "(lcg_nat ^^ i) x"
  have y: "?y < 32768" by (rule lcg_nat_funpow_less [OF x])
  from ij have "j = (j - i) + i" by simp
  then have "(lcg_nat ^^ j) x = (lcg_nat ^^ (j - i)) ?y"
    by (metis funpow_add comp_apply)
  with eq have "(lcg_nat ^^ (j - i)) ?y = ?y" by simp
  with y have "32768 dvd j - i" by (simp add: lcg_nat_return_iff)
  moreover from ij have "j - i < 32768" by simp
  ultimately have "j - i = 0" by (meson dvd_imp_le not_less zero_less_iff_neq_zero)
  with ij show ?thesis by simp
qed

lemma lcg_nat_distinct:
  assumes "x < 32768" "i < 32768" "j < 32768" "(lcg_nat ^^ i) x = (lcg_nat ^^ j) x"
  shows "i = j"
proof (cases "i \<le> j")
  case True
  with assms show ?thesis by (simp add: lcg_nat_distinct_le)
next
  case False
  then have "j \<le> i" by simp
  with assms lcg_nat_distinct_le [of x j i] show ?thesis by simp
qed

lemma lcg_nat_orbit:
  assumes x: "x < 32768"
  shows "(\<lambda>n. (lcg_nat ^^ n) x) ` {..<32768} = {..<32768}"
proof (rule card_subset_eq)
  show "finite {..<32768::nat}" by simp
  show "(\<lambda>n. (lcg_nat ^^ n) x) ` {..<32768} \<subseteq> {..<32768}"
    using lcg_nat_funpow_less [OF x] by auto
  have "inj_on (\<lambda>n. (lcg_nat ^^ n) x) {..<32768}"
    by (rule inj_onI) (simp add: lcg_nat_distinct [OF x])
  then show "card ((\<lambda>n. (lcg_nat ^^ n) x) ` {..<32768}) = card {..<32768::nat}"
    by (rule card_image)
qed

lemma lcg_word_nat: "unat ((s * 513 + 1) mod 32768 :: u16) = lcg_nat (unat s)"
proof -
  have "unat ((s * 513 + 1) mod 32768 :: u16) = ((unat s * 513 + 1) mod 65536) mod 32768"
    by (simp add: unat_mod unat_word_ariths mod_Suc_eq)
  also have "\<dots> = (unat s * 513 + 1) mod 32768"
    by (rule mod_mod_cancel) simp
  finally show ?thesis by (simp add: lcg_nat_def)
qed

lemma rand_lcg_nat:
  "rand_lcg s MAX_PERIOD MULTIPLIER C = Some (word_of_nat (lcg_nat (unat s)))"
proof -
  have "(s * 513 + 1) mod 32768 = (word_of_nat (lcg_nat (unat s)) :: u16)"
    by (metis lcg_word_nat of_nat_unat ucast_id)
  then show ?thesis by (simp add: rand_lcg_def MAX_PERIOD_def MULTIPLIER_def C_def)
qed

lemma unat_small: "v < 32768 \<Longrightarrow> unat (word_of_nat v :: u16) = v"
  by (simp add: unat_of_nat)

lemma lcg_iterate_nat:
  "lcg_iterate n s = Some (word_of_nat ((lcg_nat ^^ n) (unat s)))"
proof (induction n arbitrary: s)
  case 0
  show ?case by simp
next
  case (Suc n)
  have "lcg_iterate (Suc n) s = lcg_iterate n (word_of_nat (lcg_nat (unat s)))"
    by (simp add: rand_lcg_nat)
  also have "\<dots> = Some (word_of_nat ((lcg_nat ^^ n) (lcg_nat (unat s))))"
    by (simp add: Suc.IH unat_small lcg_nat_less)
  finally show ?case by (simp add: funpow_swap1)
qed

lemma lcg_iterate_unat:
  assumes "s < 32768"
  shows "\<exists>y. lcg_iterate n s = Some y \<and> y < 32768 \<and> unat y = (lcg_nat ^^ n) (unat s)"
proof -
  from assms have s: "unat s < 32768" by (simp add: word_less_nat_alt)
  have v: "(lcg_nat ^^ n) (unat s) < 32768" by (rule lcg_nat_funpow_less [OF s])
  then have "unat (word_of_nat ((lcg_nat ^^ n) (unat s)) :: u16) = (lcg_nat ^^ n) (unat s)"
    by (rule unat_small)
  with v show ?thesis by (simp add: lcg_iterate_nat word_less_nat_alt)
qed

text \<open>
  C4. Full period. From every seed \<open>s\<close> below 32768 the iterated generator never
  fails and stays below 32768; its first 32768 values are all the 32768 values below
  32768; no two of them are equal; and the seed comes back after \<open>n\<close> steps exactly
  when \<open>n\<close> is a multiple of 32768, so for the first time at the 32768-th step.
\<close>

theorem lcg_full_period:
  assumes "s < 32768"
  shows "(\<forall>n. \<exists>y. lcg_iterate n s = Some y \<and> y < 32768) \<and>
         {y. \<exists>n<32768. lcg_iterate n s = Some y} = {y. y < 32768} \<and>
         (\<forall>i<32768. \<forall>j<32768. lcg_iterate i s = lcg_iterate j s \<longrightarrow> i = j) \<and>
         (\<forall>n. lcg_iterate n s = Some s \<longleftrightarrow> 32768 dvd n) \<and>
         lcg_iterate 32768 s = Some s"
proof -
  from assms have s: "unat s < 32768" by (simp add: word_less_nat_alt)
  have ret: "lcg_iterate n s = Some s \<longleftrightarrow> 32768 dvd n" for n
  proof -
    obtain y where y: "lcg_iterate n s = Some y" "unat y = (lcg_nat ^^ n) (unat s)"
      using lcg_iterate_unat [OF assms] by blast
    then have "lcg_iterate n s = Some s \<longleftrightarrow> (lcg_nat ^^ n) (unat s) = unat s"
      by (auto simp add: word_unat_eq_iff)
    then show ?thesis by (simp add: lcg_nat_return_iff [OF s])
  qed
  have inj: "i = j" if "i < 32768" "j < 32768" "lcg_iterate i s = lcg_iterate j s" for i j
  proof -
    obtain y where y: "lcg_iterate i s = Some y" "unat y = (lcg_nat ^^ i) (unat s)"
      using lcg_iterate_unat [OF assms] by blast
    obtain z where z: "lcg_iterate j s = Some z" "unat z = (lcg_nat ^^ j) (unat s)"
      using lcg_iterate_unat [OF assms] by blast
    from that(3) y z have "(lcg_nat ^^ i) (unat s) = (lcg_nat ^^ j) (unat s)" by simp
    with that(1,2) show ?thesis by (rule lcg_nat_distinct [OF s])
  qed
  have orbit: "{y. \<exists>n<32768. lcg_iterate n s = Some y} = {y. y < 32768}"
  proof (intro equalityI subsetI)
    fix y assume "y \<in> {y. \<exists>n<32768. lcg_iterate n s = Some y}"
    then obtain n where "lcg_iterate n s = Some y" by blast
    with lcg_iterate_unat [OF assms, of n] show "y \<in> {y. y < 32768}" by auto
  next
    fix y :: u16 assume "y \<in> {y. y < 32768}"
    then have "unat y \<in> {..<32768}" by (simp add: word_less_nat_alt)
    then have "unat y \<in> (\<lambda>n. (lcg_nat ^^ n) (unat s)) ` {..<32768}"
      by (simp only: lcg_nat_orbit [OF s])
    then obtain n where n: "n < 32768" "unat y = (lcg_nat ^^ n) (unat s)" by auto
    have "lcg_iterate n s = Some (word_of_nat (unat y))"
      by (simp only: lcg_iterate_nat n(2))
    then have "lcg_iterate n s = Some y" by simp
    with n(1) show "y \<in> {y. \<exists>n<32768. lcg_iterate n s = Some y}" by blast
  qed
  from lcg_iterate_unat [OF assms] have tot: "\<forall>n. \<exists>y. lcg_iterate n s = Some y \<and> y < 32768"
    by blast
  from ret [of 32768] have full: "lcg_iterate 32768 s = Some s" by simp
  from tot orbit inj ret full show ?thesis by blast
qed

theorem lcg_full_period_witness:
  "(0 :: u16) < 32768 \<and> lcg_iterate 32768 0 = Some 0 \<and>
   {y. \<exists>n<32768. lcg_iterate n 0 = Some y} = {y. y < 32768} \<and>
   lcg_iterate 1 0 = Some 1 \<and> lcg_iterate 2 0 = Some 514 \<and>
   lcg_iterate 1 0 \<noteq> lcg_iterate 16384 0"
proof -
  have z: "(0 :: u16) < 32768" by simp
  have r: "rand_lcg 0 MAX_PERIOD MULTIPLIER C = Some 1" "rand_lcg 1 MAX_PERIOD MULTIPLIER C = Some 514"
    by (simp_all add: rand_lcg_def MAX_PERIOD_def MULTIPLIER_def C_def)
  have i: "lcg_iterate 1 0 = Some 1" "lcg_iterate 2 0 = Some 514"
    by (simp_all add: numeral_2_eq_2 r)
  have "lcg_iterate 1 0 \<noteq> lcg_iterate 16384 0"
  proof
    assume e: "lcg_iterate 1 0 = lcg_iterate 16384 0"
    from lcg_full_period [OF z]
    have "\<forall>i<32768. \<forall>j<32768. lcg_iterate i 0 = lcg_iterate j 0 \<longrightarrow> i = j" by blast
    then have "(1 :: nat) < 32768 \<longrightarrow> (16384 :: nat) < 32768 \<longrightarrow>
        lcg_iterate 1 0 = lcg_iterate 16384 0 \<longrightarrow> (1 :: nat) = 16384"
      by blast
    with e show False by simp
  qed
  with lcg_full_period [OF z] z i show ?thesis by blast
qed

section \<open>The input classifier\<close>

text \<open>
  C5. The classification contract of \<open>get_player_move\<close>: a reading in [500,520]
  classifies as 0x01, in [600,620] as 0x02, in [660,680] as 0x04, in [710,730] as
  0x08, and a reading outside the four bands as 0x00. When the classified move equals
  the stored previous move the function returns 0 and leaves the previous move as it
  is; otherwise it returns the classified move and stores it as the previous move.
\<close>

theorem get_player_move_contract:
  "(500 \<le> raw \<and> raw \<le> 520 \<longrightarrow> classify raw = 0x01) \<and>
   (600 \<le> raw \<and> raw \<le> 620 \<longrightarrow> classify raw = 0x02) \<and>
   (660 \<le> raw \<and> raw \<le> 680 \<longrightarrow> classify raw = 0x04) \<and>
   (710 \<le> raw \<and> raw \<le> 730 \<longrightarrow> classify raw = 0x08) \<and>
   (\<not> (500 \<le> raw \<and> raw \<le> 520) \<and> \<not> (600 \<le> raw \<and> raw \<le> 620) \<and>
    \<not> (660 \<le> raw \<and> raw \<le> 680) \<and> \<not> (710 \<le> raw \<and> raw \<le> 730)
      \<longrightarrow> classify raw = 0x00) \<and>
   (classify raw = prev \<longrightarrow> get_player_move raw prev = (0x00, prev)) \<and>
   (classify raw \<noteq> prev \<longrightarrow> get_player_move raw prev = (classify raw, classify raw))"
  by (auto simp add: classify_def get_player_move_def Let_def word_le_nat_alt)

theorem get_player_move_contract_witness:
  "(500 :: u16) \<le> 510 \<and> (510 :: u16) \<le> 520 \<and> classify 510 = 0x01 \<and>
   get_player_move 510 0x01 = (0x00, 0x01) \<and>
   get_player_move 510 0x04 = (0x01, 0x01) \<and>
   (710 :: u16) \<le> 730 \<and> classify 730 = 0x08 \<and>
   get_player_move 730 0x00 = (0x08, 0x08) \<and>
   classify 521 = 0x00 \<and> get_player_move 521 0x01 = (0x00, 0x00)"
  using get_player_move_contract [of 510 "0x01"] get_player_move_contract [of 510 "0x04"]
    get_player_move_contract [of 730 "0x00"] get_player_move_contract [of 521 "0x01"]
  by simp

lemma polls_held:
  "classify raw = prev \<Longrightarrow> polls (replicate n raw) prev = (replicate n 0, prev)"
  by (induction n) (simp_all add: get_player_move_def)

lemma get_player_move_prev: "snd (get_player_move raw prev) = classify raw"
  by (simp add: get_player_move_def Let_def)

text \<open>
  C6. Repeated polls. A held reading whose band equals the previous move gives 0 on
  every poll; polling any one reading \<open>Suc n\<close> times gives whatever the first poll
  returns followed by \<open>n\<close> zeros, and leaves that reading's band as the previous move.
  A reading that falls in one of the four bands, different from the previous move,
  is returned as a non-zero move and becomes the previous move.
\<close>

theorem polls_edge_sensitive:
  "(classify raw = prev \<longrightarrow> polls (replicate n raw) prev = (replicate n 0, prev)) \<and>
   polls (replicate (Suc n) raw) prev =
     (fst (get_player_move raw prev) # replicate n 0, classify raw) \<and>
   (classify raw' \<noteq> 0 \<and> classify raw' \<noteq> prev \<longrightarrow>
      fst (get_player_move raw' prev) = classify raw' \<and>
      fst (get_player_move raw' prev) \<noteq> 0 \<and>
      snd (get_player_move raw' prev) = classify raw')"
proof -
  obtain m p where g: "get_player_move raw prev = (m, p)"
    by (cases "get_player_move raw prev")
  with get_player_move_prev [of raw prev] have p: "p = classify raw" by simp
  with g show ?thesis
    by (simp add: polls_held) (simp add: get_player_move_def Let_def)
qed

theorem polls_edge_sensitive_witness:
  "classify 610 = 0x02 \<and>
   polls (replicate 3 610) 0x02 = ([0, 0, 0], 0x02) \<and>
   polls (replicate 4 610) 0x00 = ([0x02, 0, 0, 0], 0x02) \<and>
   classify 670 \<noteq> 0 \<and> classify 670 \<noteq> 0x02 \<and>
   get_player_move 670 0x02 = (0x04, 0x04)"
proof -
  have c: "classify 610 = 0x02" "classify 670 = 0x04" by (simp_all add: classify_def)
  have r: "replicate 3 (x :: 'a) = [x, x, x]" "replicate 4 x = [x, x, x, x]" for x
    by (simp_all add: numeral_eq_Suc)
  have g: "get_player_move 610 0x00 = (0x02, 0x02)" "get_player_move 670 0x02 = (0x04, 0x04)"
    by (simp_all add: get_player_move_def c)
  from polls_edge_sensitive [of 610 "0x02" 3 670] polls_edge_sensitive [of 610 "0x00" 3 670]
  show ?thesis
    by (simp add: c g) (simp add: r)
qed

section \<open>The branch for an unrecognised state\<close>

lemma error_step:
  "gamestate s \<notin> {IDLE, CPU, PLAYER} \<Longrightarrow>
   main_loop_body adc s =
     Inr (s\<lparr>PORTB := clear_display (set_display 0x08
                         (clear_display (set_display 0x01 (PORTB s))))\<rparr>)"
  by (simp add: main_loop_body_def)

lemma error_run:
  "gamestate s \<notin> {IDLE, CPU, PLAYER} \<Longrightarrow> \<exists>portb. run adcs s = Inr (s\<lparr>PORTB := portb\<rparr>)"
proof (induction adcs arbitrary: s)
  case Nil
  have "s = s\<lparr>PORTB := PORTB s\<rparr>" by simp
  then show ?case by (metis run.simps(1))
next
  case (Cons adc adcs)
  let ?s1 = "s\<lparr>PORTB := clear_display (set_display 0x08
                         (clear_display (set_display 0x01 (PORTB s))))\<rparr>"
  from Cons.prems have step: "main_loop_body adc s = Inr ?s1" by (rule error_step)
  from Cons.prems have "gamestate ?s1 \<notin> {IDLE, CPU, PLAYER}" by simp
  from Cons.IH [OF this] obtain portb where "run adcs ?s1 = Inr (?s1\<lparr>PORTB := portb\<rparr>)" ..
  with step have "run (adc # adcs) s = Inr (s\<lparr>PORTB := portb\<rparr>)" by simp
  then show ?case ..
qed

text \<open>
  C9. The branch for an unrecognised state is terminal. For every \<open>gamestate\<close> outside
  \<open>IDLE\<close>, \<open>CPU\<close> and \<open>PLAYER\<close>, one iteration only drives the error flash (pattern
  of 0x01, clear, pattern of 0x08, clear) through \<open>PORTB\<close>; and after any number of
  further iterations, whatever the readings, \<open>gamestate\<close> is still the same value
  outside the three, and \<open>cpu_counter\<close>, \<open>player_counter\<close>, \<open>moves\<close>, \<open>random\<close>, the
  stored seed and the static variables are what they were.
\<close>

theorem error_branch_terminal:
  assumes "gamestate s \<notin> {IDLE, CPU, PLAYER}"
  shows "main_loop_body adc s =
           Inr (s\<lparr>PORTB := clear_display (set_display 0x08
                               (clear_display (set_display 0x01 (PORTB s))))\<rparr>) \<and>
         (\<exists>s'. run adcs s = Inr s' \<and>
            gamestate s' = gamestate s \<and> gamestate s' \<notin> {IDLE, CPU, PLAYER} \<and>
            cpu_counter s' = cpu_counter s \<and> player_counter s' = player_counter s \<and>
            moves s' = moves s \<and> random s' = random s \<and> eeprom46 s' = eeprom46 s \<and>
            prev_move s' = prev_move s \<and> cascade_i s' = cascade_i s \<and>
            cascade_up s' = cascade_up s)"
proof -
  from assms obtain portb where "run adcs s = Inr (s\<lparr>PORTB := portb\<rparr>)"
    using error_run by blast
  with assms show ?thesis by (simp add: error_step)
qed

theorem error_branch_terminal_witness:
  "gamestate (init 0 (\<lambda>i. 0)\<lparr>gamestate := LOSE\<rparr>) \<notin> {IDLE, CPU, PLAYER} \<and>
   main_loop_body 300 (init 0 (\<lambda>i. 0)\<lparr>gamestate := LOSE\<rparr>) =
     Inr (init 0 (\<lambda>i. 0)\<lparr>gamestate := LOSE\<rparr>) \<and>
   (\<exists>s'. run [0, 300, 510] (init 0 (\<lambda>i. 0)\<lparr>gamestate := LOSE\<rparr>) = Inr s' \<and>
      gamestate s' = LOSE \<and> cpu_counter s' = 0 \<and> player_counter s' = 0 \<and> random s' = 0)"
proof -
  let ?s = "init 0 (\<lambda>i. 0)\<lparr>gamestate := LOSE\<rparr>"
  have g: "gamestate ?s \<notin> {IDLE, CPU, PLAYER}" by simp
  have p: "?s\<lparr>PORTB := clear_display (set_display 0x08
                         (clear_display (set_display 0x01 (PORTB ?s))))\<rparr> = ?s"
    by (simp add: init_def clear_set_display) (simp add: clear_display_def)
  from error_branch_terminal [OF g, of 300 "[0, 300, 510]"] g p show ?thesis
    by (auto simp add: init_def)
qed

section \<open>Entering the same move twice\<close>

lemma player_none_step:
  "gamestate s = PLAYER \<Longrightarrow> get_player_move adc (prev_move s) = (0, p) \<Longrightarrow>
   main_loop_body adc s = Inr (s\<lparr>prev_move := p, PORTB := clear_display (PORTB s)\<rparr>)"
  by (simp add: main_loop_body_def)

lemma player_match_step:
  assumes "gamestate s = PLAYER" and "get_player_move adc (prev_move s) = (m, p)" and "m \<noteq> 0"
    and "unat (player_counter s) < MAX_MOVES" and "moves s (unat (player_counter s)) = m"
    and "player_counter s \<noteq> cpu_counter s - 1"
  shows "main_loop_body adc s =
     Inr (s\<lparr>prev_move := p, PORTB := clear_display (PORTB s),
            player_counter := player_counter s + 1\<rparr>)"
  using assms
  by (simp add: main_loop_body_def Let_def clear_set_display clear_display_idem)

lemma press_release_press:
  assumes st: "gamestate s = PLAYER" "prev_move s = 0"
    and cl: "classify raw' = m" "m \<noteq> 0" "classify raw = 0"
    and mv: "moves s (unat (player_counter s)) = m" "moves s (unat (player_counter s) + 1) = m"
    and bd: "unat (player_counter s) + 2 < unat (cpu_counter s)" "unat (cpu_counter s) \<le> MAX_MOVES"
  shows "(\<exists>s'. run [raw', raw, raw'] s = Inr s' \<and> gamestate s' = PLAYER \<and>
              player_counter s' = player_counter s + 2) \<and>
         (\<exists>s'. run [raw', raw'] s = Inr s' \<and> gamestate s' = PLAYER \<and>
              player_counter s' = player_counter s + 1)"
proof -
  let ?p = "clear_display (PORTB s)"
  let ?s1 = "s\<lparr>prev_move := m, PORTB := ?p, player_counter := player_counter s + 1\<rparr>"
  let ?s2 = "?s1\<lparr>prev_move := 0, PORTB := clear_display (PORTB ?s1)\<rparr>"
  let ?s3 = "?s2\<lparr>prev_move := m, PORTB := clear_display (PORTB ?s2),
                player_counter := player_counter ?s2 + 1\<rparr>"
  let ?s2' = "?s1\<lparr>prev_move := m, PORTB := clear_display (PORTB ?s1)\<rparr>"
  from bd have lt: "unat (player_counter s) < 65535" "unat (player_counter s) < MAX_MOVES"
    "unat (player_counter s) + 1 < MAX_MOVES"
    by (simp_all add: MAX_MOVES_def)
  then have u1: "unat (player_counter s + 1) = unat (player_counter s) + 1"
    by (simp add: unat_succ_small)
  from bd have sub: "unat (cpu_counter s - 1) = unat (cpu_counter s) - 1"
    by (simp add: unat_sub word_le_nat_alt)
  from bd sub have ne0: "player_counter s \<noteq> cpu_counter s - 1"
    by (auto simp add: word_unat_eq_iff)
  from bd sub u1 have ne1: "player_counter s + 1 \<noteq> cpu_counter s - 1"
    by (auto simp add: word_unat_eq_iff)
  from cl have g1: "get_player_move raw' 0 = (m, m)" and g2: "get_player_move raw m = (0, 0)"
    and g3: "get_player_move raw' m = (0, m)"
    by (auto simp add: get_player_move_def)
  have a: "main_loop_body raw' s = Inr ?s1"
    using st g1 cl(2) lt(2) mv(1) ne0 by (simp add: player_match_step)
  have b: "main_loop_body raw ?s1 = Inr ?s2"
    using st g2 by (simp add: player_none_step)
  have c: "main_loop_body raw' ?s2 = Inr ?s3"
    using player_match_step [of ?s2 raw' m m] st g1 cl(2) lt(3) mv(2) ne1 u1 by simp
  have b': "main_loop_body raw' ?s1 = Inr ?s2'"
    using st g3 by (simp add: player_none_step)
  have "run [raw', raw, raw'] s = Inr ?s3" by (simp only: run.simps a b c sum.case)
  moreover have "run [raw', raw'] s = Inr ?s2'" by (simp only: run.simps a b' sum.case)
  moreover have "player_counter ?s3 = player_counter s + 2" by simp
  ultimately show ?thesis using st(1) by simp
qed

text \<open>
  C10. A reading outside all four bands re-arms the classifier: with a non-zero
  previous move it returns 0 and overwrites the previous move with 0. So the polls
  press, release, press of one and the same button report that button twice, while
  press, press without the release reports it once. In the game: where the sequence
  holds the same move at the player's position and at the next one, the readings
  press, release, press advance the player by two positions, and press, press by one.
\<close>

theorem out_of_band_rearms:
  "(classify raw = 0 \<and> prev \<noteq> 0 \<longrightarrow> get_player_move raw prev = (0, 0)) \<and>
   (classify raw = 0 \<and> classify raw' \<noteq> 0 \<longrightarrow>
      polls [raw', raw, raw'] 0 = ([classify raw', 0, classify raw'], classify raw') \<and>
      polls [raw', raw'] 0 = ([classify raw', 0], classify raw')) \<and>
   (classify raw = 0 \<and> classify raw' \<noteq> 0 \<and>
    gamestate s = PLAYER \<and> prev_move s = 0 \<and>
    moves s (unat (player_counter s)) = classify raw' \<and>
    moves s (unat (player_counter s) + 1) = classify raw' \<and>
    unat (player_counter s) + 2 < unat (cpu_counter s) \<and>
    unat (cpu_counter s) \<le> MAX_MOVES \<longrightarrow>
      (\<exists>s'. run [raw', raw, raw'] s = Inr s' \<and> gamestate s' = PLAYER \<and>
            player_counter s' = player_counter s + 2) \<and>
      (\<exists>s'. run [raw', raw'] s = Inr s' \<and> gamestate s' = PLAYER \<and>
            player_counter s' = player_counter s + 1))"
proof (intro conjI impI)
  assume "classify raw = 0 \<and> prev \<noteq> 0"
  then show "get_player_move raw prev = (0, 0)"
    by (auto simp add: get_player_move_def Let_def)
next
  assume a: "classify raw = 0 \<and> classify raw' \<noteq> 0"
  then show "polls [raw', raw, raw'] 0 = ([classify raw', 0, classify raw'], classify raw')"
    by (auto simp add: get_player_move_def Let_def)
  from a show "polls [raw', raw'] 0 = ([classify raw', 0], classify raw')"
    by (auto simp add: get_player_move_def Let_def)
next
  assume a: "classify raw = 0 \<and> classify raw' \<noteq> 0 \<and>
    gamestate s = PLAYER \<and> prev_move s = 0 \<and>
    moves s (unat (player_counter s)) = classify raw' \<and>
    moves s (unat (player_counter s) + 1) = classify raw' \<and>
    unat (player_counter s) + 2 < unat (cpu_counter s) \<and>
    unat (cpu_counter s) \<le> MAX_MOVES"
  then have b: "(\<exists>s'. run [raw', raw, raw'] s = Inr s' \<and> gamestate s' = PLAYER \<and>
              player_counter s' = player_counter s + 2) \<and>
         (\<exists>s'. run [raw', raw'] s = Inr s' \<and> gamestate s' = PLAYER \<and>
              player_counter s' = player_counter s + 1)"
    by (intro press_release_press [where m = "classify raw'"]) simp_all
  from b show "\<exists>s'. run [raw', raw, raw'] s = Inr s' \<and> gamestate s' = PLAYER \<and>
            player_counter s' = player_counter s + 2" ..
  from b show "\<exists>s'. run [raw', raw'] s = Inr s' \<and> gamestate s' = PLAYER \<and>
            player_counter s' = player_counter s + 1" ..
qed

theorem out_of_band_rearms_witness:
  "classify 0 = 0 \<and> classify 720 = 0x08 \<and>
   get_player_move 0 0x08 = (0, 0) \<and>
   polls [720, 0, 720] 0 = ([0x08, 0, 0x08], 0x08) \<and>
   polls [720, 720] 0 = ([0x08, 0], 0x08) \<and>
   (\<exists>s'. run [720, 0, 720]
            (init 0 ((\<lambda>i. 0)(0 := 0x08, 1 := 0x08, 2 := 0x01))
               \<lparr>gamestate := PLAYER, cpu_counter := 3\<rparr>) = Inr s' \<and>
         gamestate s' = PLAYER \<and> player_counter s' = 2) \<and>
   (\<exists>s'. run [720, 720]
            (init 0 ((\<lambda>i. 0)(0 := 0x08, 1 := 0x08, 2 := 0x01))
               \<lparr>gamestate := PLAYER, cpu_counter := 3\<rparr>) = Inr s' \<and>
         gamestate s' = PLAYER \<and> player_counter s' = 1)"
proof -
  let ?s = "init 0 ((\<lambda>i. 0)(0 := 0x08, 1 := 0x08, 2 := 0x01))
               \<lparr>gamestate := PLAYER, cpu_counter := 3\<rparr>"
  have c: "classify 0 = 0" "classify 720 = 0x08" by (simp_all add: classify_def)
  have q: "classify 0 = 0 \<and> (0x08 :: u8) \<noteq> 0" "classify 0 = 0 \<and> classify 720 \<noteq> 0"
    by (simp_all add: c)
  have h: "classify 0 = 0 \<and> classify 720 \<noteq> 0 \<and>
    gamestate ?s = PLAYER \<and> prev_move ?s = 0 \<and>
    moves ?s (unat (player_counter ?s)) = classify 720 \<and>
    moves ?s (unat (player_counter ?s) + 1) = classify 720 \<and>
    unat (player_counter ?s) + 2 < unat (cpu_counter ?s) \<and>
    unat (cpu_counter ?s) \<le> MAX_MOVES"
    by (simp add: c init_def MAX_MOVES_def)
  have pc: "player_counter ?s = 0" by (simp add: init_def)
  note t = out_of_band_rearms [of 0 "0x08" 720 ?s]
  from t q(1) have r1: "get_player_move 0 0x08 = (0, 0)" by blast
  from t q(2) have r2:
    "polls [720, 0, 720] 0 = ([classify 720, 0, classify 720], classify 720)"
    "polls [720, 720] 0 = ([classify 720, 0], classify 720)"
    by blast+
  from t h have g:
    "\<exists>s'. run [720, 0, 720] ?s = Inr s' \<and> gamestate s' = PLAYER \<and>
          player_counter s' = player_counter ?s + 2"
    "\<exists>s'. run [720, 720] ?s = Inr s' \<and> gamestate s' = PLAYER \<and>
          player_counter s' = player_counter ?s + 1"
    by blast+
  have g': "\<exists>s'. run [720, 0, 720] ?s = Inr s' \<and> gamestate s' = PLAYER \<and> player_counter s' = 2"
    "\<exists>s'. run [720, 720] ?s = Inr s' \<and> gamestate s' = PLAYER \<and> player_counter s' = 1"
    using g by (simp_all only: pc add_0)
  from r2 have r2': "polls [720, 0, 720] 0 = ([0x08, 0, 0x08], 0x08)"
    "polls [720, 720] 0 = ([0x08, 0], 0x08)"
    by (simp_all only: c)
  from c r1 r2' g' show ?thesis by blast
qed

section \<open>Invariants of the reachable states\<close>

lemma rand_lcg_main:
  "\<exists>r. rand_lcg x MAX_PERIOD MULTIPLIER C = Some r \<and> r < 32768"
proof -
  have "(x * 513 + 1) mod 32768 < (32768 :: u16)"
    by (rule word_mod_less_divisor) simp
  then show ?thesis by (simp add: rand_lcg_def MAX_PERIOD_def MULTIPLIER_def C_def)
qed

lemma top_bits: "r < 32768 \<Longrightarrow> drop_bit 13 r \<in> {0, 1, 2, 3}" for r :: u16
proof -
  assume "r < 32768"
  then have "unat r < 32768" by (simp add: word_less_nat_alt)
  then have "unat (drop_bit 13 r) < 4" by (simp add: unat_drop_bit_eq drop_bit_eq_div unat_div)
  then have "unat (drop_bit 13 r) \<in> {0, 1, 2, 3}" by auto
  then show ?thesis by (auto simp add: word_unat_eq_iff)
qed

lemma shl1_values: "shl1 0 = 0x01" "shl1 1 = 0x02" "shl1 2 = 0x04" "shl1 3 = 0x08"
  by (simp_all add: shl1_def)

lemma shl1_top_bits: "r < 32768 \<Longrightarrow> shl1 (drop_bit 13 r) \<in> {0x01, 0x02, 0x04, 0x08}" for r :: u16
  using top_bits [of r] by (auto simp add: shl1_values)

lemma cpu_step:
  assumes "gamestate s = CPU" and "unat (cpu_counter s) < MAX_MOVES"
    and "rand_lcg (random s) MAX_PERIOD MULTIPLIER C = Some r"
  shows "main_loop_body adc s =
    Inr (s\<lparr>random := r, eeprom46 := r,
           moves := (moves s)(unat (cpu_counter s) := shl1 (drop_bit 13 r)),
           PORTB := clear_display (PORTB s),
           cpu_counter := cpu_counter s + 1, gamestate := PLAYER\<rparr>)"
  using assms by (simp add: main_loop_body_def playback_ok)

lemma cpu_step_fault:
  "gamestate s = CPU \<Longrightarrow> \<not> unat (cpu_counter s) < MAX_MOVES \<Longrightarrow>
   main_loop_body adc s = Inl Out_Of_Bounds"
  using rand_lcg_main [of "random s"] by (auto simp add: main_loop_body_def)

lemma game_inv_init: "game_inv (init seed junk)"
  by (simp add: game_inv_def init_def)

lemma game_inv_step:
  assumes inv: "game_inv s" and step: "main_loop_body adc s = Inr s'"
  shows "game_inv s'"
proof (cases "gamestate s")
  case IDLE
  with inv step show ?thesis
    by (auto simp add: game_inv_def main_loop_body_def cascade_leds_def Let_def split: if_splits)
next
  case CPU
  obtain r where r: "rand_lcg (random s) MAX_PERIOD MULTIPLIER C = Some r" "r < 32768"
    using rand_lcg_main by blast
  show ?thesis
  proof (cases "unat (cpu_counter s) < MAX_MOVES")
    case False
    with CPU step show ?thesis by (simp add: cpu_step_fault)
  next
    case True
    then have u: "unat (cpu_counter s + 1) = unat (cpu_counter s) + 1"
      by (simp add: MAX_MOVES_def unat_succ_small)
    from CPU True r(1) step have s': "s' = s\<lparr>random := r, eeprom46 := r,
           moves := (moves s)(unat (cpu_counter s) := shl1 (drop_bit 13 r)),
           PORTB := clear_display (PORTB s),
           cpu_counter := cpu_counter s + 1, gamestate := PLAYER\<rparr>"
      by (simp add: cpu_step)
    from inv CPU have pc: "player_counter s = 0" by (simp add: game_inv_def)
    have "player_counter s < cpu_counter s + 1"
      using u pc by (simp add: word_less_nat_alt)
    with inv True u shl1_top_bits [OF r(2)] show ?thesis
      by (auto simp add: game_inv_def s' less_Suc_eq)
  qed
next
  case PLAYER
  obtain m p where g: "get_player_move adc (prev_move s) = (m, p)"
    by (cases "get_player_move adc (prev_move s)")
  from inv PLAYER have lt: "player_counter s < cpu_counter s" by (simp add: game_inv_def)
  then have ltn: "unat (player_counter s) < unat (cpu_counter s)" by (simp add: word_less_nat_alt)
  have "unat (cpu_counter s) < 65536"
    by (rule order_less_le_trans [OF unsigned_less]) simp
  with ltn have u: "unat (player_counter s + 1) = unat (player_counter s) + 1"
    by (simp add: unat_succ_small)
  have sub: "unat (cpu_counter s - 1) = unat (cpu_counter s) - 1"
    using ltn by (simp add: unat_sub word_le_nat_alt)
  have adv: "player_counter s \<noteq> cpu_counter s - 1 \<Longrightarrow> player_counter s + 1 < cpu_counter s"
    using ltn u sub by (auto simp add: word_less_nat_alt word_unat_eq_iff)
  from inv PLAYER step g adv show ?thesis
    by (auto simp add: game_inv_def main_loop_body_def Let_def split: if_splits)
next
  case LOSE
  with inv show ?thesis by (simp add: game_inv_def)
qed

lemma reachable_inv: "reachable s \<Longrightarrow> game_inv s"
  by (induction rule: reachable.induct) (auto intro: game_inv_init game_inv_step)

lemma reachable_run: "reachable s \<Longrightarrow> run adcs s = Inr s' \<Longrightarrow> reachable s'"
proof (induction adcs arbitrary: s)
  case Nil
  then show ?case by simp
next
  case (Cons adc adcs)
  then show ?case
    by (auto split: sum.splits intro: reachable.iteration)
qed


lemma reachable_player_pre:
  assumes "reachable s" and "gamestate s = PLAYER"
  shows "1 \<le> cpu_counter s \<and> player_counter s < cpu_counter s \<and>
         unat (player_counter s) < MAX_MOVES"
proof -
  from assms have lt: "player_counter s < cpu_counter s" and le: "unat (cpu_counter s) \<le> MAX_MOVES"
    using reachable_inv [of s] by (simp_all add: game_inv_def)
  from lt have "unat (player_counter s) < unat (cpu_counter s)" by (simp add: word_less_nat_alt)
  with le lt show ?thesis by (simp add: word_le_nat_alt)
qed

text \<open>
  C7. The one-hot invariant: in every reachable state each stored move \<open>moves[i]\<close>
  with \<open>i < cpu_counter\<close> is 0x01, 0x02, 0x04 or 0x08. For every value \<open>x\<close> of
  \<open>random\<close> (so for every seed found in the EEPROM) the generator call of the CPU turn
  returns a value below 32768, whose shift by 13 is in \<open>{0,1,2,3}\<close>, so the appended
  move \<open>0x01 << (random >> 13)\<close> is one of the four; and a CPU turn that completes
  from a reachable state has stored exactly that move at index \<open>cpu_counter\<close> and
  advanced \<open>cpu_counter\<close> by one.
\<close>

theorem moves_one_hot:
  "(reachable s \<longrightarrow> (\<forall>i < unat (cpu_counter s). moves s i \<in> {0x01, 0x02, 0x04, 0x08})) \<and>
   (\<exists>r. rand_lcg x MAX_PERIOD MULTIPLIER C = Some r \<and> r < 32768 \<and>
        drop_bit 13 r \<in> {0, 1, 2, 3} \<and>
        shl1 (drop_bit 13 r) \<in> {0x01, 0x02, 0x04, 0x08}) \<and>
   (reachable s \<and> gamestate s = CPU \<and> main_loop_body adc s = Inr s' \<longrightarrow>
      (\<exists>r. rand_lcg (random s) MAX_PERIOD MULTIPLIER C = Some r \<and>
           moves s' (unat (cpu_counter s)) = shl1 (drop_bit 13 r)) \<and>
      moves s' (unat (cpu_counter s)) \<in> {0x01, 0x02, 0x04, 0x08} \<and>
      cpu_counter s' = cpu_counter s + 1)"
proof (intro conjI impI)
  assume "reachable s"
  then show "\<forall>i < unat (cpu_counter s). moves s i \<in> {0x01, 0x02, 0x04, 0x08}"
    using reachable_inv [of s] by (simp add: game_inv_def)
next
  obtain r where "rand_lcg x MAX_PERIOD MULTIPLIER C = Some r" "r < 32768"
    using rand_lcg_main by blast
  then show "\<exists>r. rand_lcg x MAX_PERIOD MULTIPLIER C = Some r \<and> r < 32768 \<and>
        drop_bit 13 r \<in> {0, 1, 2, 3} \<and> shl1 (drop_bit 13 r) \<in> {0x01, 0x02, 0x04, 0x08}"
    using top_bits shl1_top_bits by blast
next
  assume a: "reachable s \<and> gamestate s = CPU \<and> main_loop_body adc s = Inr s'"
  obtain r where r: "rand_lcg (random s) MAX_PERIOD MULTIPLIER C = Some r" "r < 32768"
    using rand_lcg_main by blast
  from a have lt: "unat (cpu_counter s) < MAX_MOVES"
    using cpu_step_fault [of s adc] by auto
  from a have g: "gamestate s = CPU" and b: "main_loop_body adc s = Inr s'" by simp_all
  from cpu_step [OF g lt r(1), of adc] b have s': "s' = s\<lparr>random := r, eeprom46 := r,
           moves := (moves s)(unat (cpu_counter s) := shl1 (drop_bit 13 r)),
           PORTB := clear_display (PORTB s),
           cpu_counter := cpu_counter s + 1, gamestate := PLAYER\<rparr>"
    by simp
  then have m: "moves s' (unat (cpu_counter s)) = shl1 (drop_bit 13 r)" by simp
  with r(1) show "\<exists>r. rand_lcg (random s) MAX_PERIOD MULTIPLIER C = Some r \<and>
           moves s' (unat (cpu_counter s)) = shl1 (drop_bit 13 r)"
    by blast
  from m shl1_top_bits [OF r(2)]
  show "moves s' (unat (cpu_counter s)) \<in> {0x01, 0x02, 0x04, 0x08}" by simp
  from s' show "cpu_counter s' = cpu_counter s + 1" by simp
qed

lemma idle_start:
  "main_loop_body 201 (init 0 (\<lambda>i. 0)) =
     Inr (init 0 (\<lambda>i. 0)\<lparr>random := 1, eeprom46 := 1, cascade_i := 1, gamestate := CPU\<rparr>)"
  by (simp add: main_loop_body_def init_def cascade_leds_def blink_leds_clear clear_set_display
      Let_def) (simp add: clear_display_def)

lemma first_move:
  "main_loop_body 0 (init 0 (\<lambda>i. 0)\<lparr>random := 1, eeprom46 := 1, cascade_i := 1, gamestate := CPU\<rparr>) =
     Inr (init 0 ((\<lambda>i. 0)(0 := 0x01))
            \<lparr>random := 514, eeprom46 := 514, cascade_i := 1, cpu_counter := 1,
             gamestate := PLAYER\<rparr>)"
proof -
  have r: "rand_lcg 1 MAX_PERIOD MULTIPLIER C = Some 514"
    by (simp add: rand_lcg_def MAX_PERIOD_def MULTIPLIER_def C_def)
  have d: "drop_bit 13 (514 :: u16) = 0" by (simp add: drop_bit_eq_div)
  show ?thesis
    using cpu_step [of "init 0 (\<lambda>i. 0)\<lparr>random := 1, eeprom46 := 1, cascade_i := 1, gamestate := CPU\<rparr>" 514 0]
    by (simp add: init_def r d MAX_MOVES_def shl1_values) (simp add: clear_display_def)
qed

theorem moves_one_hot_witness:
  "reachable (init 0 (\<lambda>i. 0)\<lparr>random := 1, eeprom46 := 1, cascade_i := 1, gamestate := CPU\<rparr>) \<and>
   gamestate (init 0 (\<lambda>i. 0)\<lparr>random := 1, eeprom46 := 1, cascade_i := 1, gamestate := CPU\<rparr>)
     = CPU \<and>
   main_loop_body 0
       (init 0 (\<lambda>i. 0)\<lparr>random := 1, eeprom46 := 1, cascade_i := 1, gamestate := CPU\<rparr>) =
     Inr (init 0 ((\<lambda>i. 0)(0 := 0x01))
            \<lparr>random := 514, eeprom46 := 514, cascade_i := 1, cpu_counter := 1,
             gamestate := PLAYER\<rparr>) \<and>
   reachable (init 0 ((\<lambda>i. 0)(0 := 0x01))
            \<lparr>random := 514, eeprom46 := 514, cascade_i := 1, cpu_counter := 1,
             gamestate := PLAYER\<rparr>) \<and>
   0 < unat (cpu_counter (init 0 ((\<lambda>i. 0)(0 := 0x01))
            \<lparr>random := 514, eeprom46 := 514, cascade_i := 1, cpu_counter := 1,
             gamestate := PLAYER\<rparr>)) \<and>
   moves (init 0 ((\<lambda>i. 0)(0 := 0x01))
            \<lparr>random := 514, eeprom46 := 514, cascade_i := 1, cpu_counter := 1,
             gamestate := PLAYER\<rparr>) 0 \<in> {0x01, 0x02, 0x04, 0x08} \<and>
   rand_lcg 1 MAX_PERIOD MULTIPLIER C = Some 514 \<and> (514 :: u16) < 32768 \<and>
   shl1 (drop_bit 13 514) \<in> {0x01, 0x02, 0x04, 0x08}"
proof -
  let ?s1 = "init 0 (\<lambda>i. 0)\<lparr>random := 1, eeprom46 := 1, cascade_i := 1, gamestate := CPU\<rparr>"
  let ?s2 = "init 0 ((\<lambda>i. 0)(0 := 0x01))
            \<lparr>random := 514, eeprom46 := 514, cascade_i := 1, cpu_counter := 1,
             gamestate := PLAYER\<rparr>"
  have r1: "reachable ?s1"
    by (rule reachable.iteration [OF reachable.start idle_start])
  have r2: "reachable ?s2"
    by (rule reachable.iteration [OF r1 first_move])
  have r: "rand_lcg 1 MAX_PERIOD MULTIPLIER C = Some 514"
    by (simp add: rand_lcg_def MAX_PERIOD_def MULTIPLIER_def C_def)
  have g: "gamestate ?s1 = CPU" "0 < unat (cpu_counter ?s2)" by (simp_all add: init_def)
  from moves_one_hot [of ?s2 1 0 ?s2] r2 g(2)
  have m: "moves ?s2 0 \<in> {0x01, 0x02, 0x04, 0x08}" by blast
  from moves_one_hot [of ?s2 1 0 ?s2] r
  have x: "(514 :: u16) < 32768 \<and> shl1 (drop_bit 13 514) \<in> {0x01, 0x02, 0x04, 0x08 :: u8}"
    by simp
  from r1 r2 r g m x first_move show ?thesis by blast
qed

section \<open>The player's turn\<close>

lemma player_step_cases:
  assumes "gamestate s = PLAYER"
    and "get_player_move adc (prev_move s) = (m, prev')"
    and "m \<noteq> 0"
    and "1 \<le> cpu_counter s"
    and "player_counter s < cpu_counter s"
    and "unat (player_counter s) < MAX_MOVES"
  shows "\<exists>s'. main_loop_body adc s = Inr s' \<and>
     (m = moves s (unat (player_counter s)) \<and> player_counter s = cpu_counter s - 1 \<longrightarrow>
        player_counter s' = 0 \<and> gamestate s' = CPU \<and> cpu_counter s' = cpu_counter s) \<and>
     (m = moves s (unat (player_counter s)) \<and> player_counter s < cpu_counter s - 1 \<longrightarrow>
        player_counter s' = player_counter s + 1 \<and> gamestate s' = PLAYER \<and>
        cpu_counter s' = cpu_counter s) \<and>
     (m \<noteq> moves s (unat (player_counter s)) \<longrightarrow>
        player_counter s' = 0 \<and> cpu_counter s' = 0 \<and> gamestate s' = IDLE) \<and>
     (player_counter s = cpu_counter s - 1 \<or> player_counter s < cpu_counter s - 1) \<and>
     moves s' = moves s \<and> random s' = random s \<and> prev_move s' = prev'"
proof -
  from assms(4,5) have "unat (player_counter s) < unat (cpu_counter s)" "1 \<le> unat (cpu_counter s)"
    by (simp_all add: word_less_nat_alt word_le_nat_alt)
  moreover from this have "unat (cpu_counter s - 1) = unat (cpu_counter s) - 1"
    by (simp add: unat_sub word_le_nat_alt)
  ultimately have split: "player_counter s = cpu_counter s - 1 \<or> player_counter s < cpu_counter s - 1"
    by (auto simp add: word_less_nat_alt word_unat_eq_iff)
  have neq: "player_counter s < cpu_counter s - 1 \<Longrightarrow> player_counter s \<noteq> cpu_counter s - 1"
    by auto
  from assms(1,2,3,6) split neq show ?thesis
    by (auto simp add: main_loop_body_def Let_def)
qed

text \<open>
  C2. The player's turn on a non-zero move \<open>m\<close> returned by \<open>get_player_move\<close>, with
  \<open>cpu_counter \<ge> 1\<close>, \<open>player_counter < cpu_counter\<close> and the load
  \<open>moves[player_counter]\<close> inside the array. The iteration ends without fault and
  (1) if \<open>m\<close> is \<open>moves[player_counter]\<close> and \<open>player_counter = cpu_counter - 1\<close>,
  \<open>player_counter\<close> is 0 and the state is \<open>CPU\<close>; (2) if \<open>m\<close> is
  \<open>moves[player_counter]\<close> and \<open>player_counter < cpu_counter - 1\<close>, \<open>player_counter\<close> is
  one more and the state is still \<open>PLAYER\<close>; (3) if \<open>m\<close> differs, both counters are
  0 and the state is \<open>IDLE\<close>. One of the two positions of (1) and (2) always holds,
  the sequence and \<open>random\<close> are not touched. Every reachable state whose \<open>gamestate\<close>
  is \<open>PLAYER\<close> meets the three conditions on the counters.
\<close>

theorem player_turn_step:
  "(gamestate s = PLAYER \<and> get_player_move adc (prev_move s) = (m, prev') \<and> m \<noteq> 0 \<and>
    1 \<le> cpu_counter s \<and> player_counter s < cpu_counter s \<and>
    unat (player_counter s) < MAX_MOVES \<longrightarrow>
    (\<exists>s'. main_loop_body adc s = Inr s' \<and>
       (m = moves s (unat (player_counter s)) \<and> player_counter s = cpu_counter s - 1 \<longrightarrow>
          player_counter s' = 0 \<and> gamestate s' = CPU \<and> cpu_counter s' = cpu_counter s) \<and>
       (m = moves s (unat (player_counter s)) \<and> player_counter s < cpu_counter s - 1 \<longrightarrow>
          player_counter s' = player_counter s + 1 \<and> gamestate s' = PLAYER \<and>
          cpu_counter s' = cpu_counter s) \<and>
       (m \<noteq> moves s (unat (player_counter s)) \<longrightarrow>
          player_counter s' = 0 \<and> cpu_counter s' = 0 \<and> gamestate s' = IDLE) \<and>
       (player_counter s = cpu_counter s - 1 \<or> player_counter s < cpu_counter s - 1) \<and>
       moves s' = moves s \<and> random s' = random s \<and> prev_move s' = prev')) \<and>
   (reachable s \<and> gamestate s = PLAYER \<longrightarrow>
      1 \<le> cpu_counter s \<and> player_counter s < cpu_counter s \<and>
      unat (player_counter s) < MAX_MOVES)"
proof (intro conjI impI)
  assume "gamestate s = PLAYER \<and> get_player_move adc (prev_move s) = (m, prev') \<and> m \<noteq> 0 \<and>
    1 \<le> cpu_counter s \<and> player_counter s < cpu_counter s \<and>
    unat (player_counter s) < MAX_MOVES"
  then show "\<exists>s'. main_loop_body adc s = Inr s' \<and>
       (m = moves s (unat (player_counter s)) \<and> player_counter s = cpu_counter s - 1 \<longrightarrow>
          player_counter s' = 0 \<and> gamestate s' = CPU \<and> cpu_counter s' = cpu_counter s) \<and>
       (m = moves s (unat (player_counter s)) \<and> player_counter s < cpu_counter s - 1 \<longrightarrow>
          player_counter s' = player_counter s + 1 \<and> gamestate s' = PLAYER \<and>
          cpu_counter s' = cpu_counter s) \<and>
       (m \<noteq> moves s (unat (player_counter s)) \<longrightarrow>
          player_counter s' = 0 \<and> cpu_counter s' = 0 \<and> gamestate s' = IDLE) \<and>
       (player_counter s = cpu_counter s - 1 \<or> player_counter s < cpu_counter s - 1) \<and>
       moves s' = moves s \<and> random s' = random s \<and> prev_move s' = prev'"
    by (intro player_step_cases) simp_all
next
  assume a: "reachable s \<and> gamestate s = PLAYER"
  then have b: "1 \<le> cpu_counter s \<and> player_counter s < cpu_counter s \<and>
      unat (player_counter s) < MAX_MOVES"
    by (intro reachable_player_pre) simp_all
  from b show "1 \<le> cpu_counter s" by simp
  from b show "player_counter s < cpu_counter s" by simp
  from b show "unat (player_counter s) < MAX_MOVES" by simp
qed

theorem player_turn_step_witness:
  "reachable (init 0 ((\<lambda>i. 0)(0 := 0x01))
            \<lparr>random := 514, eeprom46 := 514, cascade_i := 1, cpu_counter := 1,
             gamestate := PLAYER\<rparr>) \<and>
   (\<exists>s'. main_loop_body 510
          (init 0 ((\<lambda>i. 0)(0 := 0x01))
            \<lparr>random := 514, eeprom46 := 514, cascade_i := 1, cpu_counter := 1,
             gamestate := PLAYER\<rparr>) = Inr s' \<and>
        player_counter s' = 0 \<and> gamestate s' = CPU \<and> cpu_counter s' = 1) \<and>
   (\<exists>s'. main_loop_body 610
          (init 0 ((\<lambda>i. 0)(0 := 0x01, 1 := 0x02))
             \<lparr>gamestate := PLAYER, cpu_counter := 2, player_counter := 1\<rparr>) = Inr s' \<and>
        player_counter s' = 0 \<and> gamestate s' = CPU \<and> cpu_counter s' = 2) \<and>
   (\<exists>s'. main_loop_body 510
          (init 0 ((\<lambda>i. 0)(0 := 0x01, 1 := 0x02))
             \<lparr>gamestate := PLAYER, cpu_counter := 2, player_counter := 0\<rparr>) = Inr s' \<and>
        player_counter s' = 1 \<and> gamestate s' = PLAYER \<and> cpu_counter s' = 2) \<and>
   (\<exists>s'. main_loop_body 670
          (init 0 ((\<lambda>i. 0)(0 := 0x01, 1 := 0x02))
             \<lparr>gamestate := PLAYER, cpu_counter := 2, player_counter := 1\<rparr>) = Inr s' \<and>
        player_counter s' = 0 \<and> gamestate s' = IDLE \<and> cpu_counter s' = 0)"
proof -
  let ?mv = "(\<lambda>i. 0)(0 := 0x01, 1 := 0x02) :: nat \<Rightarrow> u8"
  let ?s1 = "init 0 ?mv\<lparr>gamestate := PLAYER, cpu_counter := 2, player_counter := 1\<rparr>"
  let ?s0 = "init 0 ?mv\<lparr>gamestate := PLAYER, cpu_counter := 2, player_counter := 0\<rparr>"
  let ?r = "init 0 ((\<lambda>i. 0)(0 := 0x01))
            \<lparr>random := 514, eeprom46 := 514, cascade_i := 1, cpu_counter := 1,
             gamestate := PLAYER\<rparr>"
  have g: "get_player_move 610 0 = (0x02, 0x02)" "get_player_move 510 0 = (0x01, 0x01)"
    "get_player_move 670 0 = (0x04, 0x04)"
    by (simp_all add: get_player_move_def classify_def)
  have r: "reachable ?r"
    by (rule reachable.iteration [OF reachable.iteration [OF reachable.start idle_start] first_move])
  have "gamestate ?r = PLAYER" by (simp add: init_def)
  with r player_turn_step [of ?r 510 "0x01" "0x01"]
  have pre: "1 \<le> cpu_counter ?r \<and> player_counter ?r < cpu_counter ?r \<and>
      unat (player_counter ?r) < MAX_MOVES"
    by blast
  have "\<exists>s'. main_loop_body 510 ?r = Inr s' \<and>
          player_counter s' = 0 \<and> gamestate s' = CPU \<and> cpu_counter s' = 1"
    using player_turn_step [of ?r 510 "0x01" "0x01"] g pre
    by (simp add: init_def) blast
  moreover
  have "\<exists>s'. main_loop_body 610 ?s1 = Inr s' \<and>
          player_counter s' = 0 \<and> gamestate s' = CPU \<and> cpu_counter s' = 2"
    using player_turn_step [of ?s1 610 "0x02" "0x02"] g
    by (simp add: init_def MAX_MOVES_def) blast
  moreover
  have "\<exists>s'. main_loop_body 510 ?s0 = Inr s' \<and>
          player_counter s' = 1 \<and> gamestate s' = PLAYER \<and> cpu_counter s' = 2"
    using player_turn_step [of ?s0 510 "0x01" "0x01"] g
    by (simp add: init_def MAX_MOVES_def) blast
  moreover
  have "\<exists>s'. main_loop_body 670 ?s1 = Inr s' \<and>
          player_counter s' = 0 \<and> gamestate s' = IDLE \<and> cpu_counter s' = 0"
    using player_turn_step [of ?s1 670 "0x04" "0x04"] g
    by (simp add: init_def MAX_MOVES_def) blast
  ultimately show ?thesis using r by blast
qed

section \<open>One hundred rounds without an error\<close>

lemma run_append:
  "run (xs @ ys) s = (case run xs s of Inl e \<Rightarrow> Inl e | Inr s' \<Rightarrow> run ys s')"
  by (induction xs arbitrary: s) (simp_all split: sum.splits)

lemma classify_press: "m \<in> {0x01, 0x02, 0x04, 0x08} \<Longrightarrow> classify (press m) = m"
  by (auto simp add: classify_def press_def)

lemma release_step:
  "gamestate s = PLAYER \<Longrightarrow>
   main_loop_body 0 s = Inr (s\<lparr>prev_move := 0, PORTB := clear_display (PORTB s)\<rparr>)"
  by (simp add: main_loop_body_def get_player_move_def classify_def)

lemma press_step:
  assumes "gamestate s = PLAYER" and "prev_move s = 0"
    and "moves s (unat (player_counter s)) = m" and "m \<in> {0x01, 0x02, 0x04, 0x08}"
    and "unat (player_counter s) < MAX_MOVES"
  shows "main_loop_body (press m) s =
     Inr (if player_counter s = cpu_counter s - 1
          then s\<lparr>prev_move := m, PORTB := clear_display (PORTB s),
                 player_counter := 0, gamestate := CPU\<rparr>
          else s\<lparr>prev_move := m, PORTB := clear_display (PORTB s),
                 player_counter := player_counter s + 1\<rparr>)"
proof -
  from assms(4) have m0: "m \<noteq> 0" by auto
  with assms(2,4) have g: "get_player_move (press m) (prev_move s) = (m, m)"
    by (simp add: get_player_move_def classify_press)
  with assms(1,3,5) m0 show ?thesis
    by (simp add: main_loop_body_def Let_def clear_set_display clear_display_idem)
qed

lemma lcg_iterate_Suc:
  "lcg_iterate n x = Some y \<Longrightarrow> lcg_iterate (Suc n) x = rand_lcg y MAX_PERIOD MULTIPLIER C"
proof (induction n arbitrary: x)
  case 0
  then show ?case by (simp split: option.splits)
next
  case (Suc n)
  obtain z where z: "rand_lcg x MAX_PERIOD MULTIPLIER C = Some z"
    using rand_lcg_nat by blast
  with Suc.prems have "lcg_iterate n z = Some y" by simp
  then have "lcg_iterate (Suc n) z = rand_lcg y MAX_PERIOD MULTIPLIER C" by (rule Suc.IH)
  moreover have "lcg_iterate (Suc (Suc n)) x = lcg_iterate (Suc n) z"
    by (subst lcg_iterate.simps) (simp only: z option.case)
  ultimately show ?case by (simp only:)
qed

lemma lcg_iterate_Suc_less: "\<exists>r. lcg_iterate (Suc k) x = Some r \<and> r < 32768"
proof -
  let ?v = "(lcg_nat ^^ Suc k) (unat x)"
  have v: "?v < 32768" by (simp add: lcg_nat_less)
  then have "unat (word_of_nat ?v :: u16) = ?v" by (rule unat_small)
  with v have "(word_of_nat ?v :: u16) < 32768" by (simp add: word_less_nat_alt)
  then show ?thesis by (simp only: lcg_iterate_nat) simp
qed

lemma cpu_move_one_hot: "cpu_move x k \<in> {0x01, 0x02, 0x04, 0x08}"
proof -
  obtain r where "lcg_iterate (Suc k) x = Some r" "r < 32768"
    using lcg_iterate_Suc_less by blast
  then show ?thesis using shl1_top_bits [of r] by (simp add: cpu_move_def)
qed


lemma echo:
  assumes "gamestate s = PLAYER" and "unat (cpu_counter s) = n" and "n \<le> MAX_MOVES"
    and "unat (player_counter s) = k" and "k < n"
    and "\<forall>j<n. moves s j = M j" and "\<forall>j<n. M j \<in> {0x01, 0x02, 0x04, 0x08}"
  shows "\<exists>s'. run (concat (map (\<lambda>j. [0, press (M j)]) [k..<n])) s = Inr s' \<and>
           gamestate s' = CPU \<and> player_counter s' = 0 \<and> cpu_counter s' = cpu_counter s \<and>
           moves s' = moves s \<and> random s' = random s"
  using assms
proof (induction "n - k" arbitrary: k s)
  case 0
  then show ?case by simp
next
  case (Suc d)
  let ?s1 = "s\<lparr>prev_move := 0, PORTB := clear_display (PORTB s)\<rparr>"
  let ?p = "clear_display (PORTB ?s1)"
  from Suc.prems have mk: "moves s k = M k" "M k \<in> {0x01, 0x02, 0x04, 0x08}" by simp_all
  from Suc.prems have k100: "k < MAX_MOVES" by simp
  from Suc.prems have rel: "main_loop_body 0 s = Inr ?s1" by (simp add: release_step)
  have prs: "main_loop_body (press (M k)) ?s1 =
     Inr (if player_counter s = cpu_counter s - 1
          then ?s1\<lparr>prev_move := M k, PORTB := ?p, player_counter := 0, gamestate := CPU\<rparr>
          else ?s1\<lparr>prev_move := M k, PORTB := ?p, player_counter := player_counter s + 1\<rparr>)"
    using press_step [of ?s1 "M k"] Suc.prems(1,4) mk k100 by simp
  from Suc.prems have "unat (cpu_counter s - 1) = n - 1"
    by (simp add: unat_sub word_le_nat_alt)
  with Suc.prems have last_iff: "player_counter s = cpu_counter s - 1 \<longleftrightarrow> Suc k = n"
    by (auto simp add: word_unat_eq_iff)
  show ?case
  proof (cases "Suc k = n")
    case True
    then have "[k..<n] = [k]" by (simp add: upt_rec)
    with True rel prs last_iff show ?thesis by simp
  next
    case False
    with Suc.prems have lt: "Suc k < n" by simp
    let ?s2 = "?s1\<lparr>prev_move := M k, PORTB := ?p, player_counter := player_counter s + 1\<rparr>"
    from Suc.prems k100 have u: "unat (player_counter s + 1) = Suc k"
      by (simp add: unat_succ_small MAX_MOVES_def)
    from Suc.hyps(2) have d: "d = n - Suc k" by simp
    have "\<exists>s'. run (concat (map (\<lambda>j. [0, press (M j)]) [Suc k..<n])) ?s2 = Inr s' \<and>
           gamestate s' = CPU \<and> player_counter s' = 0 \<and> cpu_counter s' = cpu_counter ?s2 \<and>
           moves s' = moves ?s2 \<and> random s' = random ?s2"
      using Suc.prems u lt by (intro Suc.hyps(1) [OF d]) simp_all
    moreover from Suc.prems have "[k..<n] = k # [Suc k..<n]" by (simp add: upt_rec)
    ultimately show ?thesis using False rel prs last_iff by simp
  qed
qed

lemma round_ok:
  assumes "synced x n s" and "n < MAX_MOVES"
  shows "\<exists>s'. run (round_readings x n) s = Inr s' \<and> synced x (Suc n) s'"
proof -
  from assms(1) have g: "gamestate s = CPU" and cc: "unat (cpu_counter s) = n"
    and pc: "player_counter s = 0" and it: "lcg_iterate n x = Some (random s)"
    and mv: "\<forall>j<n. moves s j = cpu_move x j"
    by (simp_all add: synced_def)
  obtain r where r: "lcg_iterate (Suc n) x = Some r"
    using lcg_iterate_Suc_less by blast
  with it have rl: "rand_lcg (random s) MAX_PERIOD MULTIPLIER C = Some r"
    by (simp only: lcg_iterate_Suc [OF it])
  from r have cm: "cpu_move x n = shl1 (drop_bit 13 r)" by (simp add: cpu_move_def)
  let ?s1 = "s\<lparr>random := r, eeprom46 := r,
           moves := (moves s)(unat (cpu_counter s) := shl1 (drop_bit 13 r)),
           PORTB := clear_display (PORTB s),
           cpu_counter := cpu_counter s + 1, gamestate := PLAYER\<rparr>"
  from g cc assms(2) rl have step: "main_loop_body 0 s = Inr ?s1" by (simp add: cpu_step)
  from cc assms(2) have u: "unat (cpu_counter s + 1) = Suc n"
    by (simp add: unat_succ_small MAX_MOVES_def)
  have "\<exists>s'. run (concat (map (\<lambda>j. [0, press (cpu_move x j)]) [0..<Suc n])) ?s1 = Inr s' \<and>
           gamestate s' = CPU \<and> player_counter s' = 0 \<and> cpu_counter s' = cpu_counter ?s1 \<and>
           moves s' = moves ?s1 \<and> random s' = random ?s1"
  proof (rule echo)
    show "gamestate ?s1 = PLAYER" by simp
    show "unat (cpu_counter ?s1) = Suc n" using u by simp
    show "Suc n \<le> MAX_MOVES" using assms(2) by simp
    show "unat (player_counter ?s1) = 0" using pc by simp
    show "0 < Suc n" by simp
    show "\<forall>j<Suc n. moves ?s1 j = cpu_move x j" using mv cc cm by (simp add: less_Suc_eq)
    show "\<forall>j<Suc n. cpu_move x j \<in> {0x01, 0x02, 0x04, 0x08}"
      using cpu_move_one_hot by blast
  qed
  then obtain s' where s': "run (concat (map (\<lambda>j. [0, press (cpu_move x j)]) [0..<Suc n])) ?s1 = Inr s'"
    "gamestate s' = CPU" "player_counter s' = 0" "cpu_counter s' = cpu_counter ?s1"
    "moves s' = moves ?s1" "random s' = random ?s1"
    by blast
  from step s'(1) have "run (round_readings x n) s = Inr s'"
    by (simp add: round_readings_def)
  moreover from s' u r mv cc cm have "synced x (Suc n) s'"
    by (simp add: synced_def less_Suc_eq)
  ultimately show ?thesis by blast
qed

lemma idle_activate:
  "\<exists>s'. main_loop_body 201 (init seed junk) = Inr s' \<and> synced (seed + 1) 0 s'"
  by (simp add: main_loop_body_def init_def cascade_leds_def Let_def synced_def)

lemma perfect_game_Suc:
  "perfect_game seed (Suc n) = perfect_game seed n @ round_readings (seed + 1) n"
  by (simp add: perfect_game_def)

lemma perfect_game_ok:
  "n \<le> MAX_MOVES \<Longrightarrow>
   \<exists>s. run (perfect_game seed n) (init seed junk) = Inr s \<and> synced (seed + 1) n s"
proof (induction n)
  case 0
  from idle_activate [of seed junk] show ?case by (auto simp add: perfect_game_def)
next
  case (Suc n)
  then obtain s where s: "run (perfect_game seed n) (init seed junk) = Inr s"
    "synced (seed + 1) n s"
    by auto
  from Suc.prems have "n < MAX_MOVES" by simp
  from round_ok [OF s(2) this] obtain s' where
    "run (round_readings (seed + 1) n) s = Inr s'" "synced (seed + 1) (Suc n) s'"
    by blast
  with s(1) show ?case by (simp add: perfect_game_Suc run_append)
qed

text \<open>
  C1. The move sequence is meant to be bounded: in every reachable state
  \<open>cpu_counter\<close> at most \<open>MAX_MOVES = 100\<close>, and every store
  \<open>moves[cpu_counter] = ...\<close> of the CPU turn at an index below 100. The loop does not
  keep that bound. For every seed and every initial contents of the array, the player
  who repeats each sequence for 100 rounds brings the loop to a reachable state with
  \<open>gamestate = CPU\<close> and \<open>cpu_counter = 100\<close>; the iteration that follows is the
  store \<open>moves[100]\<close>, one element past the end of the array.
\<close>

theorem moves_overflow:
  "run (perfect_game seed MAX_MOVES @ [adc]) (init seed junk) = Inl Out_Of_Bounds \<and>
   (\<exists>s. run (perfect_game seed MAX_MOVES) (init seed junk) = Inr s \<and> reachable s \<and>
        gamestate s = CPU \<and> unat (cpu_counter s) = MAX_MOVES \<and>
        main_loop_body adc s = Inl Out_Of_Bounds)"
proof -
  obtain s where s: "run (perfect_game seed MAX_MOVES) (init seed junk) = Inr s"
    "synced (seed + 1) MAX_MOVES s"
    using perfect_game_ok [of MAX_MOVES seed junk] by auto
  then have g: "gamestate s = CPU" and c: "unat (cpu_counter s) = MAX_MOVES"
    by (simp_all add: synced_def)
  then have f: "main_loop_body adc s = Inl Out_Of_Bounds" by (simp add: cpu_step_fault)
  have r: "reachable s" by (rule reachable_run [OF reachable.start s(1)])
  from s(1) f have "run (perfect_game seed MAX_MOVES @ [adc]) (init seed junk) = Inl Out_Of_Bounds"
    by (simp add: run_append)
  with s(1) r g c f show ?thesis by blast
qed

end
